theory Spec2Isabelle
  imports Main "HOL-Library.Sublist"
begin

section \<open>Text and console events\<close>

text \<open>
  The script \<^verbatim>\<open>automated_sqlmap.py\<close> works on Python strings. A text is modelled as a
  \<^typ>\<open>string\<close>; one \<^typ>\<open>char\<close> stands for one code point below 256. The newline
  character of the regular expression is \<open>CHR 0x0A\<close>.
\<close>

definition nl :: char where
  "nl = CHR 0x0A"

text \<open>
  What the process does to its surroundings, in the order it does it: the prompt written
  by \<^verbatim>\<open>input\<close>, every call of \<^verbatim>\<open>print\<close> (with the string printed, the line end
  left out), and every call of \<^verbatim>\<open>subprocess.getoutput\<close> (with the command line).
\<close>

datatype event = Prompt string | Print string | Invoke string

fun invocations :: "event list \<Rightarrow> string list" where
  "invocations [] = []"
| "invocations (Invoke c # es) = c # invocations es"
| "invocations (e # es) = invocations es"

section \<open>The regular expression\<close>

text \<open>
  The three extractors call \<^verbatim>\<open>re.findall(r'\[\*\] (.*?)\n', output)\<close>. The pattern is
  a sequence of literal characters and one capturing group \<^verbatim>\<open>(.*?)\<close>: a lazy
  repetition of the dot, which (no flag is given) matches every character but the
  newline. \<open>rx_match p cap text\<close> is the backtracking matcher anchored at the head of
  \<open>text\<close>: a literal must be the next character; the lazy group first tries to go on
  with the rest of the pattern and takes one more character only when that fails. It
  returns the text of the group and the text left after the match.
\<close>

datatype rx_item = Lit char | LazyDotGroup

fun rx_match :: "rx_item list \<Rightarrow> string \<Rightarrow> string \<Rightarrow> (string \<times> string) option" where
  "rx_match [] cap text = Some (cap, text)"
| "rx_match (Lit c # p) cap [] = None"
| "rx_match (Lit c # p) cap (x # xs) = (if x = c then rx_match p cap xs else None)"
| "rx_match (LazyDotGroup # p) cap text =
     (case rx_match p cap text of
        Some r \<Rightarrow> Some r
      | None \<Rightarrow>
         (case text of
            [] \<Rightarrow> None
          | x # xs \<Rightarrow> if x = nl then None else rx_match (LazyDotGroup # p) (cap @ [x]) xs))"

text \<open>
  \<^verbatim>\<open>re.findall\<close> scans the text from left to right: where the pattern matches, the
  group is recorded and the scan goes on after the match; where it does not, the scan
  moves one character on. (A match that consumes nothing moves one character on as
  well; the pattern of this script always consumes at least five characters.)
\<close>

function findall :: "rx_item list \<Rightarrow> string \<Rightarrow> string list" where
  "findall p [] = (case rx_match p [] [] of Some (g, rest) \<Rightarrow> [g] | None \<Rightarrow> [])"
| "findall p (x # xs) =
     (case rx_match p [] (x # xs) of
        Some (g, rest) \<Rightarrow>
          (if length rest < length (x # xs) then g # findall p rest else g # findall p xs)
      | None \<Rightarrow> findall p xs)"
  by pat_completeness auto
termination
  by (relation "measure (\<lambda>(p, text). length text)") auto

declare findall.simps [simp del]

definition marker_pattern :: "rx_item list" where
  "marker_pattern =
     [Lit (CHR ''[''), Lit (CHR ''*''), Lit (CHR '']''), Lit (CHR '' ''), LazyDotGroup, Lit nl]"

section \<open>The extractors\<close>

definition extract_databases :: "string \<Rightarrow> string list" where
  "extract_databases output =
     (let match = findall marker_pattern output in if match \<noteq> [] then match else [])"

definition extract_tables :: "string \<Rightarrow> string list" where
  "extract_tables output =
     (let match = findall marker_pattern output in if match \<noteq> [] then match else [])"

definition extract_columns :: "string \<Rightarrow> string list" where
  "extract_columns output =
     (let match = findall marker_pattern output in if match \<noteq> [] then match else [])"

section \<open>The orchestrator\<close>

text \<open>
  \<^verbatim>\<open>subprocess.getoutput\<close> runs a command line in the shell and returns its output as
  text. What it returns depends on the world outside the script (the tool, the target,
  the network), which the call may change: it is a function from the command line and
  the world before the call to the text returned and the world after it.
\<close>

type_synonym 'w getoutput = "string \<Rightarrow> 'w \<Rightarrow> string \<times> 'w"

text \<open>\<^verbatim>\<open>sep.join(xs)\<close>\<close>

fun join :: "string \<Rightarrow> string list \<Rightarrow> string" where
  "join sep [] = []"
| "join sep [x] = x"
| "join sep (x # y # ys) = x @ sep @ join sep (y # ys)"

definition dbs_command :: "string \<Rightarrow> string" where
  "dbs_command url = ''sqlmap -u '' @ url @ '' --batch --dbs --disable-color''"

definition tables_command :: "string \<Rightarrow> string \<Rightarrow> string" where
  "tables_command url db = ''sqlmap -u '' @ url @ '' -D '' @ db @ '' --batch --tables''"

definition columns_command :: "string \<Rightarrow> string \<Rightarrow> string \<Rightarrow> string" where
  "columns_command url db table =
     ''sqlmap -u '' @ url @ '' -D '' @ db @ '' -T '' @ table @ '' --batch --columns''"

text \<open>The loop \<^verbatim>\<open>for table in tables\<close> of \<^verbatim>\<open>run_sqlmap\<close>.\<close>

fun columns_loop ::
  "'w getoutput \<Rightarrow> string \<Rightarrow> string \<Rightarrow> string list \<Rightarrow> 'w \<Rightarrow> event list \<times> 'w" where
  "columns_loop sh url db [] w = ([], w)"
| "columns_loop sh url db (table # tables) w =
     (case sh (columns_command url db table) w of
        (columns_output, w1) \<Rightarrow>
          (let columns = extract_columns columns_output;
               report =
                 (if columns = [] then ''No columns found in table '' @ table @ ''.''
                  else ''Columns in '' @ table @ '': '' @ join '', '' columns)
           in case columns_loop sh url db tables w1 of
                (evs, w2) \<Rightarrow>
                  ([Print (''Extracting columns from '' @ table @ ''...''),
                    Invoke (columns_command url db table),
                    Print columns_output,
                    Print report] @ evs, w2)))"

text \<open>The loop \<^verbatim>\<open>for db in databases\<close> of \<^verbatim>\<open>run_sqlmap\<close>.\<close>

fun databases_loop ::
  "'w getoutput \<Rightarrow> string \<Rightarrow> string list \<Rightarrow> 'w \<Rightarrow> event list \<times> 'w" where
  "databases_loop sh url [] w = ([], w)"
| "databases_loop sh url (db # dbs) w =
     (case sh (tables_command url db) w of
        (tables_output, w1) \<Rightarrow>
          (let tables = extract_tables tables_output
           in case (if tables = []
                    then ([Print (''No tables found in database '' @ db @ ''.'')], w1)
                    else columns_loop sh url db tables w1) of
                (inner, w2) \<Rightarrow>
                  (case databases_loop sh url dbs w2 of
                     (evs, w3) \<Rightarrow>
                       ([Print (''Found database: '' @ db),
                         Invoke (tables_command url db),
                         Print tables_output] @ inner @ evs, w3))))"

definition run_sqlmap :: "'w getoutput \<Rightarrow> string \<Rightarrow> 'w \<Rightarrow> event list \<times> 'w" where
  "run_sqlmap sh url w =
     (case sh (dbs_command url) w of
        (dbs_output, w1) \<Rightarrow>
          (let databases = extract_databases dbs_output;
               start = [Print (''Running SQLMap on '' @ url @ '' to fetch databases...''),
                        Invoke (dbs_command url),
                        Print dbs_output]
           in if databases = [] then (start @ [Print ''No databases found.''], w1)
              else (case databases_loop sh url databases w1 of
                      (evs, w2) \<Rightarrow> (start @ evs, w2))))"

section \<open>The entry point\<close>

text \<open>
  \<^verbatim>\<open>str.isspace\<close> on the code points below 256: the controls U+0009 to U+000D and
  U+001C to U+001F, the space, U+0085 and U+00A0. \<^verbatim>\<open>str.strip()\<close> removes such
  characters from both ends.
\<close>

definition py_isspace :: "char \<Rightarrow> bool" where
  "py_isspace c =
     (let n = (of_char c :: nat)
      in (9 \<le> n \<and> n \<le> 13) \<or> (28 \<le> n \<and> n \<le> 32) \<or> n = 133 \<or> n = 160)"

definition strip :: "string \<Rightarrow> string" where
  "strip s = rev (dropWhile py_isspace (rev (dropWhile py_isspace s)))"

text \<open>
  The block under \<^verbatim>\<open>if __name__ == "__main__"\<close>, for the line that \<^verbatim>\<open>input\<close> has
  read.
\<close>

definition main :: "'w getoutput \<Rightarrow> string \<Rightarrow> 'w \<Rightarrow> event list \<times> 'w" where
  "main sh line w =
     (let target_url = strip line
      in if target_url \<noteq> []
         then (case run_sqlmap sh target_url w of
                 (evs, w') \<Rightarrow> (Prompt ''Enter target URL: '' # evs, w'))
         else ([Prompt ''Enter target URL: '', Print ''Invalid URL''], w))"

section \<open>Lines of a text\<close>

text \<open>
  The lines of a text that end with a newline, each without its newline; what follows
  the last newline is not among them. \<open>after_marker\<close> is the rest of a line after the
  leftmost \<^verbatim>\<open>[*] \<close> in it, \<open>at_line_start\<close> the rest of a line that begins with
  \<^verbatim>\<open>[*] \<close>.
\<close>

fun lines_from :: "string \<Rightarrow> string \<Rightarrow> string list" where
  "lines_from cur [] = []"
| "lines_from cur (c # cs) = (if c = nl then cur # lines_from [] cs else lines_from (cur @ [c]) cs)"

definition terminated_lines :: "string \<Rightarrow> string list" where
  "terminated_lines t = lines_from [] t"

fun after_marker :: "string \<Rightarrow> string option" where
  "after_marker [] = None"
| "after_marker (c # cs) =
     (if take 4 (c # cs) = ''[*] '' then Some (drop 4 (c # cs)) else after_marker cs)"

text \<open>
  The extractor as section 4.2 of the specification words it: the substrings that follow
  the marker at the start of a line, up to the next newline.
\<close>

definition at_line_start :: "string \<Rightarrow> string option" where
  "at_line_start l = (if take 4 l = ''[*] '' then Some (drop 4 l) else None)"

definition spec_extract :: "string \<Rightarrow> string list" where
  "spec_extract t = List.map_filter at_line_start (terminated_lines t)"

section \<open>A stand-in for the external tool\<close>

text \<open>
  To run the orchestrator on concrete inputs, the external tool is replaced by a table of
  canned answers: a command line found in the table returns its text, every other
  command line returns the empty text. The world is the unit type.
\<close>

definition canned :: "(string \<times> string) list \<Rightarrow> unit getoutput" where
  "canned answers command w = (case map_of answers command of Some out \<Rightarrow> (out, w) | None \<Rightarrow> ([], w))"

definition two_tables :: "(string \<times> string) list" where
  "two_tables =
     [(''sqlmap -u u --batch --dbs --disable-color'', ''banner\<newline>[*] db1\<newline>''),
      (''sqlmap -u u -D db1 --batch --tables'', ''[*] t1\<newline>[*] t2\<newline>''),
      (''sqlmap -u u -D db1 -T t1 --batch --columns'', ''[*] id\<newline>[*] name\<newline>'')]"

definition no_marker :: "(string \<times> string) list" where
  "no_marker = [(''sqlmap -u u --batch --dbs --disable-color'', ''banner\<newline>[*\<newline>'')]"

definition inner_marker :: "(string \<times> string) list" where
  "inner_marker = [(''sqlmap -u u --batch --dbs --disable-color'', ''x[*] a\<newline>'')]"

definition empty_name :: "(string \<times> string) list" where
  "empty_name =
     [(''sqlmap -u u --batch --dbs --disable-color'', ''banner\<newline>[*] \<newline>[*] db\<newline>'')]"

section \<open>The pattern, position by position\<close>

lemma rx_match_lits:
  "rx_match (map Lit s @ p) cap t =
     (if take (length s) t = s then rx_match p cap (drop (length s) t) else None)"
proof (induction s arbitrary: t)
  case Nil
  show ?case by simp
next
  case (Cons c s)
  show ?case by (cases t) (auto simp: Cons.IH)
qed

lemma rx_match_lazy_nl:
  "rx_match [LazyDotGroup, Lit nl] cap t =
     (if nl \<in> set t
      then Some (cap @ takeWhile (\<lambda>c. c \<noteq> nl) t, tl (dropWhile (\<lambda>c. c \<noteq> nl) t))
      else None)"
  by (induction t arbitrary: cap) auto

lemma marker_pattern_split: "marker_pattern = map Lit ''[*] '' @ [LazyDotGroup, Lit nl]"
  by (simp add: marker_pattern_def)

lemma rx_match_marker:
  "rx_match marker_pattern [] t =
     (if take 4 t = ''[*] '' \<and> nl \<in> set (drop 4 t)
      then Some (takeWhile (\<lambda>c. c \<noteq> nl) (drop 4 t), tl (dropWhile (\<lambda>c. c \<noteq> nl) (drop 4 t)))
      else None)"
proof -
  have len: "length ''[*] '' = 4" by simp
  show ?thesis
    by (simp only: marker_pattern_split rx_match_lits len rx_match_lazy_nl append_Nil)
      (simp del: rx_match.simps)
qed

lemma length_tl_dropWhile_drop: "length (tl (dropWhile P (drop n (x # xs)))) < Suc (length xs)"
proof -
  have "length (dropWhile P (drop n (x # xs))) \<le> length (drop n (x # xs))"
    by (rule length_dropWhile_le)
  then show ?thesis by simp
qed

lemma findall_marker_Nil: "findall marker_pattern [] = []"
  by (simp add: findall.simps rx_match_marker)

lemma findall_marker_Cons:
  "findall marker_pattern (x # xs) =
     (if take 4 (x # xs) = ''[*] '' \<and> nl \<in> set (drop 4 (x # xs))
      then takeWhile (\<lambda>c. c \<noteq> nl) (drop 4 (x # xs))
             # findall marker_pattern (tl (dropWhile (\<lambda>c. c \<noteq> nl) (drop 4 (x # xs))))
      else findall marker_pattern xs)"
  using length_tl_dropWhile_drop [of "\<lambda>c. c \<noteq> nl" 4 x xs]
  by (simp add: findall.simps rx_match_marker del: rx_match.simps)

lemma findall_marker_no_nl: "nl \<notin> set t \<Longrightarrow> findall marker_pattern t = []"
proof (induction t)
  case Nil
  show ?case by (rule findall_marker_Nil)
next
  case (Cons x xs)
  have "nl \<notin> set (drop 4 (x # xs))"
    using Cons.prems by (meson in_set_dropD)
  with Cons show ?case by (simp add: findall_marker_Cons)
qed

lemma nl_notin_marker: "nl \<notin> set ''[*] ''"
  by (simp add: nl_def)

lemma take_marker_line:
  assumes "nl \<notin> set l"
  shows "(take 4 (l @ nl # r) = ''[*] '') = (take 4 l = ''[*] '')"
proof (cases "4 \<le> length l")
  case True
  then show ?thesis by simp
next
  case False
  then have "nl \<in> set (take 4 (l @ nl # r))" by (auto simp: take_Cons')
  then have a: "take 4 (l @ nl # r) \<noteq> ''[*] ''" using nl_notin_marker by metis
  have "length (take 4 l) \<noteq> length ''[*] ''" using False by simp
  then have b: "take 4 l \<noteq> ''[*] ''" by metis
  from a b show ?thesis by simp
qed

lemma takeWhile_line: "nl \<notin> set m \<Longrightarrow> takeWhile (\<lambda>c. c \<noteq> nl) (m @ nl # r) = m"
  by (induction m) auto

lemma dropWhile_line: "nl \<notin> set m \<Longrightarrow> dropWhile (\<lambda>c. c \<noteq> nl) (m @ nl # r) = nl # r"
  by (induction m) auto

lemma findall_marker_step:
  assumes "t \<noteq> []"
  shows "findall marker_pattern t =
     (if take 4 t = ''[*] '' \<and> nl \<in> set (drop 4 t)
      then takeWhile (\<lambda>c. c \<noteq> nl) (drop 4 t)
             # findall marker_pattern (tl (dropWhile (\<lambda>c. c \<noteq> nl) (drop 4 t)))
      else findall marker_pattern (tl t))"
proof -
  from assms obtain x xs where t: "t = x # xs" by (cases t) auto
  show ?thesis unfolding t findall_marker_Cons by simp
qed

lemma findall_marker_line:
  assumes "nl \<notin> set l"
  shows "findall marker_pattern (l @ nl # r) =
     (case after_marker l of Some g \<Rightarrow> g # findall marker_pattern r
                           | None \<Rightarrow> findall marker_pattern r)"
  using assms
proof (induction l)
  case Nil
  have "take 4 (nl # r) \<noteq> ''[*] ''" by (simp add: nl_def)
  moreover have "nl # r \<noteq> []" by simp
  ultimately have "findall marker_pattern (nl # r) = findall marker_pattern r"
    by (simp only: findall_marker_step simp_thms if_False list.sel)
  then show ?case by simp
next
  case (Cons c cs)
  have n: "nl \<notin> set (c # cs)" by (rule Cons.prems)
  have ih: "findall marker_pattern (cs @ nl # r) =
     (case after_marker cs of Some g \<Rightarrow> g # findall marker_pattern r
                            | None \<Rightarrow> findall marker_pattern r)"
    using Cons by simp
  define t where "t = (c # cs) @ nl # r"
  have ne: "t \<noteq> []" by (simp add: t_def)
  have tl: "tl t = cs @ nl # r" by (simp add: t_def)
  show ?case
  proof (cases "take 4 (c # cs) = ''[*] ''")
    case True
    then have "length (take 4 (c # cs)) = length ''[*] ''" by (rule arg_cong)
    then have len: "4 \<le> length (c # cs)" by simp
    have tk: "take 4 t = ''[*] ''"
      unfolding t_def using take_marker_line [OF n] True by blast
    have d: "drop 4 t = drop 4 (c # cs) @ nl # r"
      unfolding t_def using len by simp
    have m: "nl \<notin> set (drop 4 (c # cs))"
      using n by (meson in_set_dropD)
    have mem: "nl \<in> set (drop 4 t)" unfolding d by simp
    have tw: "takeWhile (\<lambda>c. c \<noteq> nl) (drop 4 t) = drop 4 (c # cs)"
      unfolding d using m by (rule takeWhile_line)
    have dw: "tl (dropWhile (\<lambda>c. c \<noteq> nl) (drop 4 t)) = r"
      unfolding d dropWhile_line [OF m] by (rule list.sel)
    have "findall marker_pattern t = drop 4 (c # cs) # findall marker_pattern r"
      by (simp only: findall_marker_step [OF ne] tk mem tw dw simp_thms if_True)
    moreover have "after_marker (c # cs) = Some (drop 4 (c # cs))"
      using True by (simp only: after_marker.simps if_True simp_thms)
    ultimately show ?thesis unfolding t_def by (simp only: option.case)
  next
    case False
    then have "take 4 t \<noteq> ''[*] ''"
      unfolding t_def using take_marker_line [OF n] by blast
    then have "findall marker_pattern t = findall marker_pattern (cs @ nl # r)"
      by (simp only: findall_marker_step [OF ne] tl simp_thms if_False)
    moreover have "after_marker (c # cs) = after_marker cs"
      using False by (simp only: after_marker.simps if_False simp_thms)
    ultimately show ?thesis unfolding t_def using ih by (simp only:)
  qed
qed

lemma lines_from_no_nl: "nl \<notin> set t \<Longrightarrow> lines_from cur t = []"
  by (induction t arbitrary: cur) auto

lemma lines_from_line:
  "nl \<notin> set l \<Longrightarrow> lines_from cur (l @ nl # r) = (cur @ l) # lines_from [] r"
  by (induction l arbitrary: cur) auto

lemma lines_from_append_no_nl: "nl \<notin> set t \<Longrightarrow> lines_from cur (s @ t) = lines_from cur s"
  by (induction s arbitrary: cur) (auto simp: lines_from_no_nl)

lemma lines_from_append_nl:
  "lines_from cur (s @ nl # r) = lines_from cur (s @ [nl]) @ lines_from [] r"
  by (induction s arbitrary: cur) auto

lemma findall_marker_lines:
  "findall marker_pattern t = List.map_filter after_marker (terminated_lines t)"
proof (induction "length t" arbitrary: t rule: less_induct)
  case less
  show ?case
  proof (cases "nl \<in> set t")
    case False
    then show ?thesis
      by (simp add: findall_marker_no_nl terminated_lines_def lines_from_no_nl map_filter_simps)
  next
    case True
    then obtain l r where t: "t = l @ nl # r" and l: "nl \<notin> set l"
      by (meson split_list_first)
    have "length r < length t" using t by simp
    then have ih: "findall marker_pattern r = List.map_filter after_marker (terminated_lines r)"
      by (rule less)
    show ?thesis
      unfolding t findall_marker_line [OF l] terminated_lines_def lines_from_line [OF l]
      using ih by (simp add: terminated_lines_def map_filter_simps split: option.splits)
  qed
qed

section \<open>Properties of the extractors and of the orchestrator\<close>

lemma extract_databases_findall: "extract_databases t = findall marker_pattern t"
  by (simp add: extract_databases_def Let_def)

lemma extract_tables_findall: "extract_tables t = findall marker_pattern t"
  by (simp add: extract_tables_def Let_def)

lemma extract_columns_findall: "extract_columns t = findall marker_pattern t"
  by (simp add: extract_columns_def Let_def)

lemma terminated_lines_append_no_nl:
  "nl \<notin> set t \<Longrightarrow> terminated_lines (s @ t) = terminated_lines s"
  by (simp add: terminated_lines_def lines_from_append_no_nl)

lemma findall_marker_append_no_nl:
  "nl \<notin> set t \<Longrightarrow> findall marker_pattern (s @ t) = findall marker_pattern s"
  by (simp add: findall_marker_lines terminated_lines_append_no_nl)

lemma map_filter_append:
  "List.map_filter f (xs @ ys) = List.map_filter f xs @ List.map_filter f ys"
  by (simp add: List.map_filter_def)

lemma after_marker_only: "after_marker ''[*] '' = Some []"
  by simp

lemma terminated_lines_at_line_start:
  assumes "a = [] \<or> last a = nl" and "nl \<notin> set l"
  shows "terminated_lines (a @ l @ nl # b) = terminated_lines a @ l # terminated_lines b"
proof (cases "a = []")
  case True
  then show ?thesis
    using assms(2) by (simp add: terminated_lines_def lines_from_line lines_from_no_nl)
next
  case False
  with assms(1) obtain a' where a: "a = a' @ [nl]"
    by (metis append_butlast_last_id)
  have "lines_from [] (a' @ nl # (l @ nl # b)) =
          lines_from [] (a' @ [nl]) @ lines_from [] (l @ nl # b)"
    by (rule lines_from_append_nl)
  then show ?thesis
    using assms(2) by (simp add: a terminated_lines_def lines_from_line)
qed

lemma findall_marker_empty_identifier:
  assumes "a = [] \<or> last a = nl"
  shows "[] \<in> set (findall marker_pattern (a @ ''[*] '' @ nl # b))"
proof -
  have "terminated_lines (a @ ''[*] '' @ nl # b)
          = terminated_lines a @ ''[*] '' # terminated_lines b"
    using assms nl_notin_marker by (rule terminated_lines_at_line_start)
  then show ?thesis
    by (simp add: findall_marker_lines map_filter_append map_filter_simps)
qed

text \<open>
  Claim C1, as the code has it. The pattern has no anchor and is used without the
  multi-line flag, so the marker need not stand at the start of a line. For every input
  text, each of the three extractors returns, in order, one entry for every
  newline-terminated line that contains \<^verbatim>\<open>[*] \<close> anywhere: the rest of that line
  after the leftmost occurrence of the marker.
\<close>

theorem extract_marker_first_in_each_line:
  "extract_databases t = List.map_filter after_marker (terminated_lines t) \<and>
   extract_tables t = List.map_filter after_marker (terminated_lines t) \<and>
   extract_columns t = List.map_filter after_marker (terminated_lines t)"
  by (simp only: extract_databases_findall extract_tables_findall extract_columns_findall
      findall_marker_lines simp_thms)

text \<open>
  Claim C1 as stated fails: in the text \<^verbatim>\<open>x[*] a\<close> followed by a newline the marker
  is not at the start of the line, yet the extractor returns \<^verbatim>\<open>a\<close>, where the
  extractor of the specification returns nothing.
\<close>

theorem extract_marker_inside_line_counterexample:
  "extract_databases ''x[*] a\<newline>'' = [''a''] \<and> spec_extract ''x[*] a\<newline>'' = [] \<and>
   extract_databases ''x[*] a\<newline>'' \<noteq> spec_extract ''x[*] a\<newline>''"
  by (simp add: extract_databases_findall findall_marker_lines terminated_lines_def
      spec_extract_def at_line_start_def map_filter_simps nl_def)

text \<open>The characterisation of C1 at a text of four lines.\<close>

theorem extract_marker_first_in_each_line_witness:
  "extract_databases ''[*] a\<newline>x[*] b\<newline>no\<newline>[*] c'' = [''a'', ''b'']"
  using extract_marker_first_in_each_line [of "''[*] a\<newline>x[*] b\<newline>no\<newline>[*] c''"]
  by (simp add: terminated_lines_def map_filter_simps nl_def)

text \<open>
  Claim C5: on the three newline-terminated lines \<^verbatim>\<open>[*] alpha\<close>, \<^verbatim>\<open>[*] beta\<close>,
  \<^verbatim>\<open>[*] alpha\<close> the extractor returns alpha, beta, alpha: the order of appearance is
  kept and the repeated name is not removed.
\<close>

theorem extract_alpha_beta_alpha:
  "extract_databases ''[*] alpha\<newline>[*] beta\<newline>[*] alpha\<newline>'' = [''alpha'', ''beta'', ''alpha''] \<and>
   extract_tables ''[*] alpha\<newline>[*] beta\<newline>[*] alpha\<newline>'' = [''alpha'', ''beta'', ''alpha''] \<and>
   extract_columns ''[*] alpha\<newline>[*] beta\<newline>[*] alpha\<newline>'' = [''alpha'', ''beta'', ''alpha'']"
  by (simp add: extract_databases_findall extract_tables_findall extract_columns_findall
      findall_marker_lines terminated_lines_def map_filter_simps nl_def)

text \<open>
  Claim C7: \<open>extract_databases\<close>, \<open>extract_tables\<close> and \<open>extract_columns\<close> return the
  same sequence on every input text.
\<close>

theorem extractors_equal:
  "extract_databases t = extract_tables t \<and> extract_tables t = extract_columns t"
  by (simp add: extract_databases_def extract_tables_def extract_columns_def)

text \<open>
  Claim C9: when the text ends with a line that carries the marker but no newline after
  it, the extractor returns what it returns on the text before that marker: the final
  identifier is left out.
\<close>

theorem extract_omits_unterminated_final_line:
  assumes "nl \<notin> set final"
  shows "extract_databases (pre @ ''[*] '' @ final) = extract_databases pre \<and>
         extract_tables (pre @ ''[*] '' @ final) = extract_tables pre \<and>
         extract_columns (pre @ ''[*] '' @ final) = extract_columns pre"
proof -
  have "nl \<notin> set (''[*] '' @ final)"
    using assms nl_notin_marker by simp
  then have "findall marker_pattern (pre @ ''[*] '' @ final) = findall marker_pattern pre"
    by (rule findall_marker_append_no_nl)
  then show ?thesis
    by (simp only: extract_databases_findall extract_tables_findall extract_columns_findall
        simp_thms)
qed

text \<open>Claim C9 at the text \<^verbatim>\<open>[*] first\<close>, newline, \<^verbatim>\<open>[*] last\<close>.\<close>

theorem extract_omits_unterminated_final_line_witness:
  "nl \<notin> set ''last'' \<and>
   extract_databases ''[*] first\<newline>[*] last'' = [''first''] \<and>
   extract_databases ''[*] first\<newline>'' = [''first'']"
proof -
  have h: "nl \<notin> set ''last''" by (simp add: nl_def)
  have e: "extract_databases ''[*] first\<newline>'' = [''first'']"
    by (simp add: extract_databases_findall findall_marker_lines terminated_lines_def
        map_filter_simps nl_def)
  show ?thesis
    using h e extract_omits_unterminated_final_line [OF h, of "''[*] first\<newline>''"]
    by simp
qed

lemma extract_databases_db1: "extract_databases ''banner\<newline>[*] db1\<newline>'' = [''db1'']"
  by (simp add: extract_databases_findall findall_marker_lines terminated_lines_def
      map_filter_simps nl_def)

lemma extract_tables_t1_t2: "extract_tables ''[*] t1\<newline>[*] t2\<newline>'' = [''t1'', ''t2'']"
  by (simp add: extract_tables_findall findall_marker_lines terminated_lines_def
      map_filter_simps nl_def)

lemma canned_dbs:
  "canned two_tables (dbs_command ''u'') () = (''banner\<newline>[*] db1\<newline>'', ())"
  by (simp add: canned_def two_tables_def dbs_command_def)

lemma canned_tables:
  "canned two_tables (tables_command ''u'' ''db1'') () = (''[*] t1\<newline>[*] t2\<newline>'', ())"
  by (simp add: canned_def two_tables_def tables_command_def)


lemma invocations_append: "invocations (xs @ ys) = invocations xs @ invocations ys"
  by (induction xs rule: invocations.induct) auto

lemma map_filter_empty_iff: "List.map_filter f xs = [] \<longleftrightarrow> (\<forall>x\<in>set xs. f x = None)"
  by (induction xs) (auto simp: map_filter_simps split: option.splits)

lemma strip_empty_iff: "strip s = [] \<longleftrightarrow> (\<forall>c\<in>set s. py_isspace c)"
proof
  assume "strip s = []"
  then have "\<forall>c\<in>set (dropWhile py_isspace s). py_isspace c"
    by (simp add: strip_def dropWhile_eq_Nil_conv)
  then have "dropWhile py_isspace s = []"
    by (metis hd_dropWhile hd_in_set)
  then show "\<forall>c\<in>set s. py_isspace c"
    by (simp add: dropWhile_eq_Nil_conv)
next
  assume "\<forall>c\<in>set s. py_isspace c"
  then have "dropWhile py_isspace s = []"
    by (simp add: dropWhile_eq_Nil_conv)
  then show "strip s = []" by (simp only: strip_def rev.simps dropWhile.simps)
qed

lemma databases_loop_invokes:
  "db \<in> set dbs \<Longrightarrow> Invoke (tables_command url db) \<in> set (fst (databases_loop sh url dbs w))"
proof (induction dbs arbitrary: w)
  case Nil
  then show ?case by simp
next
  case (Cons d ds)
  show ?case
  proof (cases "db = d")
    case True
    then show ?thesis by (simp add: Let_def split: prod.splits)
  next
    case False
    with Cons.prems have "db \<in> set ds" by simp
    then have "\<And>w'. Invoke (tables_command url db) \<in> set (fst (databases_loop sh url ds w'))"
      by (rule Cons.IH)
    then show ?thesis
      by (simp add: Let_def split: prod.splits) (metis fst_conv)
  qed
qed

lemma run_sqlmap_invokes_tables:
  assumes "db \<in> set (extract_databases (fst (sh (dbs_command url) w)))"
  shows "Invoke (tables_command url db) \<in> set (fst (run_sqlmap sh url w))"
proof -
  obtain out w1 where o: "sh (dbs_command url) w = (out, w1)" by (cases "sh (dbs_command url) w")
  from assms o have m: "db \<in> set (extract_databases out)" by simp
  then have ne: "extract_databases out \<noteq> []" by auto
  have "Invoke (tables_command url db) \<in> set (fst (databases_loop sh url (extract_databases out) w1))"
    using m by (rule databases_loop_invokes)
  then show ?thesis
    using o ne by (simp add: run_sqlmap_def Let_def split: prod.splits) (metis fst_conv)
qed

text \<open>
  Claim C8: the table-listing command line is the tool name, the target flag with the
  URL, the database flag with the database name, the non-interactive flag and the
  list-tables flag, with the URL and the name put in as they are; and the orchestrator
  invokes exactly this command line for every database name that the extractor returns
  for the database listing.
\<close>

theorem tables_command_line:
  "tables_command url db = ''sqlmap -u '' @ url @ '' -D '' @ db @ '' --batch --tables'' \<and>
   (db \<in> set (extract_databases (fst (sh (dbs_command url) w))) \<longrightarrow>
      Invoke (''sqlmap -u '' @ url @ '' -D '' @ db @ '' --batch --tables'')
        \<in> set (fst (run_sqlmap sh url w)))"
  using run_sqlmap_invokes_tables [of db sh url w] by (simp add: tables_command_def)

text \<open>The theorem at a canned run: its hypotheses hold there, and so does its conclusion.\<close>

theorem tables_command_line_witness:
  "''db1'' \<in> set (extract_databases (fst (canned two_tables (dbs_command ''u'') ()))) \<and>
   Invoke ''sqlmap -u u -D db1 --batch --tables'' \<in> set (fst (run_sqlmap (canned two_tables) ''u'' ()))"
proof -
  have h: "''db1'' \<in> set (extract_databases (fst (canned two_tables (dbs_command ''u'') ())))"
    by (simp add: canned_dbs extract_databases_db1)
  show ?thesis
    using h tables_command_line [of "''u''" "''db1''" "canned two_tables" "()"] by simp
qed

text \<open>
  Claim C2: when the database listing yields the one name db1 and the table listing for
  db1 yields t1 and t2, the orchestrator invokes the tool four times, in this order:
  databases, tables of db1, columns of t1, columns of t2.
\<close>

theorem run_sqlmap_four_invocations:
  assumes "sh (dbs_command url) w = (dbs_output, w1)"
    and "extract_databases dbs_output = [''db1'']"
    and "sh (tables_command url ''db1'') w1 = (tables_output, w2)"
    and "extract_tables tables_output = [''t1'', ''t2'']"
  shows "invocations (fst (run_sqlmap sh url w)) =
           [''sqlmap -u '' @ url @ '' --batch --dbs --disable-color'',
            ''sqlmap -u '' @ url @ '' -D db1 --batch --tables'',
            ''sqlmap -u '' @ url @ '' -D db1 -T t1 --batch --columns'',
            ''sqlmap -u '' @ url @ '' -D db1 -T t2 --batch --columns'']"
  using assms
  by (simp add: run_sqlmap_def Let_def invocations_append split: prod.splits)
    (simp add: dbs_command_def tables_command_def columns_command_def)

text \<open>The theorem at a canned run: its hypotheses hold there, and so does its conclusion.\<close>

theorem run_sqlmap_four_invocations_witness:
  "canned two_tables (dbs_command ''u'') () = (''banner\<newline>[*] db1\<newline>'', ()) \<and>
   extract_databases ''banner\<newline>[*] db1\<newline>'' = [''db1''] \<and>
   canned two_tables (tables_command ''u'' ''db1'') () = (''[*] t1\<newline>[*] t2\<newline>'', ()) \<and>
   extract_tables ''[*] t1\<newline>[*] t2\<newline>'' = [''t1'', ''t2''] \<and>
   invocations (fst (run_sqlmap (canned two_tables) ''u'' ())) =
     [''sqlmap -u u --batch --dbs --disable-color'',
      ''sqlmap -u u -D db1 --batch --tables'',
      ''sqlmap -u u -D db1 -T t1 --batch --columns'',
      ''sqlmap -u u -D db1 -T t2 --batch --columns'']"
  using run_sqlmap_four_invocations
    [where sh = "canned two_tables" and url = "''u''" and w = "()",
     OF canned_dbs extract_databases_db1 canned_tables extract_tables_t1_t2]
    canned_dbs extract_databases_db1 canned_tables extract_tables_t1_t2
  by simp

text \<open>
  Claim C4, as the code has it. The orchestrator stops after the database listing when
  the extractor returns nothing, and the extractor looks for the marker anywhere in a
  line (see C1): when no newline-terminated line of the database listing contains
  \<^verbatim>\<open>[*] \<close> anywhere, \<open>run_sqlmap\<close> invokes the tool once, prints that no databases
  were found and returns.
\<close>

theorem run_sqlmap_no_databases:
  assumes "\<forall>l\<in>set (terminated_lines (fst (sh (dbs_command url) w))). after_marker l = None"
  shows "fst (run_sqlmap sh url w) =
           [Print (''Running SQLMap on '' @ url @ '' to fetch databases...''),
            Invoke (''sqlmap -u '' @ url @ '' --batch --dbs --disable-color''),
            Print (fst (sh (dbs_command url) w)),
            Print ''No databases found.''] \<and>
         invocations (fst (run_sqlmap sh url w)) =
           [''sqlmap -u '' @ url @ '' --batch --dbs --disable-color'']"
proof -
  obtain out w1 where o: "sh (dbs_command url) w = (out, w1)"
    by (cases "sh (dbs_command url) w")
  have e: "extract_databases out = []"
    using assms o
    by (simp add: extract_databases_findall findall_marker_lines map_filter_empty_iff)
  have d: "''sqlmap -u '' @ url @ '' --batch --dbs --disable-color'' = dbs_command url"
    by (simp add: dbs_command_def)
  show ?thesis
    unfolding d using o e by (simp add: run_sqlmap_def Let_def)
qed

text \<open>The theorem at a canned run: its hypotheses hold there, and so does its conclusion.\<close>

theorem run_sqlmap_no_databases_witness:
  "terminated_lines (fst (canned no_marker (dbs_command ''u'') ())) = [''banner'', ''[*''] \<and>
   after_marker ''banner'' = None \<and> after_marker ''[*'' = None \<and>
   fst (run_sqlmap (canned no_marker) ''u'' ()) =
     [Print ''Running SQLMap on u to fetch databases...'',
      Invoke ''sqlmap -u u --batch --dbs --disable-color'',
      Print ''banner\<newline>[*\<newline>'',
      Print ''No databases found.''] \<and>
   invocations (fst (run_sqlmap (canned no_marker) ''u'' ())) =
     [''sqlmap -u u --batch --dbs --disable-color'']"
proof -
  have o: "fst (canned no_marker (dbs_command ''u'') ()) = ''banner\<newline>[*\<newline>''"
    by (simp add: canned_def no_marker_def dbs_command_def)
  have h: "\<forall>l\<in>set (terminated_lines (fst (canned no_marker (dbs_command ''u'') ()))).
             after_marker l = None"
    by (simp add: o terminated_lines_def nl_def)
  show ?thesis
    using o
      run_sqlmap_no_databases [where sh = "canned no_marker" and url = "''u''" and w = "()", OF h]
    by (simp add: terminated_lines_def nl_def)
qed

lemma canned_inner_dbs:
  "canned inner_marker (dbs_command ''u'') () = (''x[*] a\<newline>'', ())"
  by (simp add: canned_def inner_marker_def dbs_command_def)

lemma canned_inner_tables:
  "canned inner_marker (tables_command ''u'' ''a'') () = ([], ())"
  by (simp add: canned_def inner_marker_def tables_command_def)

text \<open>
  Claim C4 as stated fails, with the marker pattern read as the specification defines it
  (the marker at the start of a line): in the database listing \<^verbatim>\<open>x[*] a\<close> followed by
  a newline no line starts with the marker, yet \<open>run_sqlmap\<close> finds the database a,
  invokes the tool a second time for its tables and never prints that no databases were
  found.
\<close>

theorem run_sqlmap_marker_inside_line_counterexample:
  "spec_extract (fst (canned inner_marker (dbs_command ''u'') ())) = [] \<and>
   fst (run_sqlmap (canned inner_marker) ''u'' ()) =
     [Print ''Running SQLMap on u to fetch databases...'',
      Invoke ''sqlmap -u u --batch --dbs --disable-color'',
      Print ''x[*] a\<newline>'',
      Print ''Found database: a'',
      Invoke ''sqlmap -u u -D a --batch --tables'',
      Print [],
      Print ''No tables found in database a.''] \<and>
   invocations (fst (run_sqlmap (canned inner_marker) ''u'' ())) =
     [''sqlmap -u u --batch --dbs --disable-color'', ''sqlmap -u u -D a --batch --tables''] \<and>
   Print ''No databases found.'' \<notin> set (fst (run_sqlmap (canned inner_marker) ''u'' ()))"
proof -
  have d: "extract_databases ''x[*] a\<newline>'' = [''a'']"
    by (simp add: extract_databases_findall findall_marker_lines terminated_lines_def
        map_filter_simps nl_def)
  have t: "extract_tables [] = []"
    by (simp add: extract_tables_findall findall_marker_Nil)
  have s: "spec_extract ''x[*] a\<newline>'' = []"
    by (simp add: spec_extract_def terminated_lines_def at_line_start_def map_filter_simps nl_def)
  have r: "fst (run_sqlmap (canned inner_marker) ''u'' ()) =
     [Print ''Running SQLMap on u to fetch databases...'',
      Invoke ''sqlmap -u u --batch --dbs --disable-color'',
      Print ''x[*] a\<newline>'',
      Print ''Found database: a'',
      Invoke ''sqlmap -u u -D a --batch --tables'',
      Print [],
      Print ''No tables found in database a.'']"
    by (simp add: run_sqlmap_def canned_inner_dbs canned_inner_tables d t Let_def)
      (simp add: dbs_command_def tables_command_def)
  show ?thesis
    unfolding r by (simp add: canned_inner_dbs s)
qed









text \<open>
  Claim C3: for a line that is empty or holds white space only, the entry point prints
  \<^verbatim>\<open>Invalid URL\<close> and invokes nothing; for a line that is not empty after
  \<^verbatim>\<open>strip\<close>, it runs the orchestrator on the stripped line.
\<close>

theorem main_checks_url:
  "((\<forall>c\<in>set line. py_isspace c) \<longrightarrow>
      main sh line w = ([Prompt ''Enter target URL: '', Print ''Invalid URL''], w) \<and>
      invocations (fst (main sh line w)) = []) \<and>
   (strip line \<noteq> [] \<longrightarrow>
      main sh line w =
        (Prompt ''Enter target URL: '' # fst (run_sqlmap sh (strip line) w),
         snd (run_sqlmap sh (strip line) w)))"
  by (simp add: main_def Let_def strip_empty_iff [symmetric] split: prod.splits)

text \<open>The theorem at a canned run: its hypotheses hold there, and so does its conclusion.\<close>

theorem main_checks_url_witness:
  "py_isspace (CHR '' '') \<and>
   main (canned []) '' '' () = ([Prompt ''Enter target URL: '', Print ''Invalid URL''], ()) \<and>
   invocations (fst (main (canned []) '' '' ())) = [] \<and>
   strip '' u '' \<noteq> [] \<and>
   main (canned []) '' u '' () =
     (Prompt ''Enter target URL: '' # fst (run_sqlmap (canned []) ''u'' ()), ())"
proof -
  have h1: "\<forall>c\<in>set '' ''. py_isspace c" by (simp add: py_isspace_def)
  have s: "strip '' u '' = ''u''" by (simp add: strip_def py_isspace_def)
  then have h2: "strip '' u '' \<noteq> []" by simp
  have h0: "py_isspace (CHR '' '')" by (simp add: py_isspace_def)
  show ?thesis
    using h0 h1 h2 s main_checks_url [of "'' ''" "canned []" "()"]
      main_checks_url [of "'' u ''" "canned []" "()"]
    by simp
qed

text \<open>
  Claim C10: when the database listing contains a line that is exactly \<^verbatim>\<open>[*] \<close>
  followed by a newline, the extractor returns the empty string among the database
  names, and the orchestrator invokes the table listing with the empty name put into the
  command line.
\<close>

theorem extract_empty_identifier:
  assumes "a = [] \<or> last a = CHR ''\<newline>''"
    and "fst (sh (dbs_command url) w) = a @ ''[*] \<newline>'' @ b"
  shows "[] \<in> set (extract_databases (fst (sh (dbs_command url) w))) \<and>
         Invoke (''sqlmap -u '' @ url @ '' -D  --batch --tables'') \<in> set (fst (run_sqlmap sh url w))"
proof -
  have "a @ ''[*] \<newline>'' @ b = a @ ''[*] '' @ nl # b" by (simp add: nl_def)
  moreover have "a = [] \<or> last a = nl" using assms(1) by (simp add: nl_def)
  ultimately have m: "[] \<in> set (extract_databases (fst (sh (dbs_command url) w)))"
    using assms(2) findall_marker_empty_identifier [of a b]
    by (simp only: extract_databases_findall)
  then have "Invoke (tables_command url []) \<in> set (fst (run_sqlmap sh url w))"
    by (rule run_sqlmap_invokes_tables)
  with m show ?thesis by (simp add: tables_command_def)
qed

text \<open>The theorem at a canned run: its hypotheses hold there, and so does its conclusion.\<close>

theorem extract_empty_identifier_witness:
  "last ''banner\<newline>'' = CHR ''\<newline>'' \<and>
   fst (canned empty_name (dbs_command ''u'') ()) = ''banner\<newline>'' @ ''[*] \<newline>'' @ ''[*] db\<newline>'' \<and>
   [] \<in> set (extract_databases (fst (canned empty_name (dbs_command ''u'') ()))) \<and>
   Invoke ''sqlmap -u u -D  --batch --tables'' \<in> set (fst (run_sqlmap (canned empty_name) ''u'' ()))"
proof -
  have h1: "''banner\<newline>'' = [] \<or> last ''banner\<newline>'' = CHR ''\<newline>''" by simp
  have h2: "fst (canned empty_name (dbs_command ''u'') ())
              = ''banner\<newline>'' @ ''[*] \<newline>'' @ ''[*] db\<newline>''"
    by (simp add: canned_def empty_name_def dbs_command_def)
  show ?thesis
    using h1 h2 extract_empty_identifier
      [where sh = "canned empty_name" and url = "''u''" and w = "()"
         and a = "''banner\<newline>''" and b = "''[*] db\<newline>''", OF h1 h2]
    by simp
qed

end
